theory Spec2Isabelle
  imports Complex_Main "HOL-Library.Multiset"
begin

section \<open>Data model of mqAudio.js\<close>

text \<open>
  JavaScript numbers are modelled as real numbers: frequencies, magnitudes and
  thresholds are finite values and their arithmetic is exact.  The non-finite
  values of a JavaScript number appear only where the code can produce them
  from finite inputs (the maximum of an empty collection, a division by zero);
  they are the constructors of \<open>jsnum\<close> below.  Array lengths, frame
  indices and \<open>maxPeaks\<close> are natural numbers; an omitted optional argument
  (\<open>undefined\<close>) is \<open>None\<close>.

  \<^verbatim>\<open>// Peak = { freq:frequency, amp:magnitude }\<close>
  \<^verbatim>\<open>// Track = { birth:frameNumber, peaks:ArrayOfPeaks }\<close>
\<close>

record peak =
  freq :: real
  amp :: real

record track =
  birth :: nat
  peaks :: "peak list"

text \<open>\<^verbatim>\<open>var matchingThreshold = 200;\<close>\<close>

definition matchingThreshold :: real where
  "matchingThreshold = 200"

section \<open>detectPeaks\<close>

text \<open>
  The \<^verbatim>\<open>for (i=1; i<bins-1; ++i)\<close> loop of one frame, with its
  loop-carried variables \<open>prevMag\<close>, \<open>curMag\<close> and the array
  \<open>framePeaks\<close> that receives each pushed peak.  In JavaScript
  \<open>bins-1\<close> is \<open>-1\<close> for an empty frame; the test is written
  \<open>i + 1 < bins\<close> so that natural-number subtraction does not occur.
\<close>

function detect_loop ::
  "real list \<Rightarrow> real \<Rightarrow> real \<Rightarrow> nat \<Rightarrow> real \<Rightarrow> real \<Rightarrow> peak list \<Rightarrow> peak list" where
  "detect_loop frame binFactor threshold i prevMag curMag framePeaks =
     (if i + 1 < length frame then
        (let nextMag = frame ! (i + 1) in
           detect_loop frame binFactor threshold (i + 1) curMag nextMag
             (if curMag > prevMag \<and> curMag > nextMag \<and> curMag > threshold
              then framePeaks @ [\<lparr>freq = real i * binFactor, amp = curMag\<rparr>]
              else framePeaks))
      else framePeaks)"
  by pat_completeness auto
termination
  by (relation "measure (\<lambda>(frame, binFactor, threshold, i, prevMag, curMag, framePeaks).
        length frame - i)") auto

declare detect_loop.simps [simp del]

text \<open>
  \<open>_.last(array, n)\<close> of lodash 2.x: \<open>slice(array, max(0, length - n))\<close>,
  the last \<open>n\<close> elements.
\<close>

definition lodash_last_n :: "'a list \<Rightarrow> nat \<Rightarrow> 'a list" where
  "lodash_last_n array n = drop (length array - n) array"

text \<open>
  The body of the \<open>forEach\<close> over the spectrogram.  \<open>frame[0]\<close> and
  \<open>frame[1]\<close> are read before the loop; when the frame is too short for
  them to exist the loop body never runs and they are never used.
  \<open>_.sortBy(framePeaks, 'freq')\<close> is a stable ascending sort on the
  \<open>freq\<close> field.
\<close>

definition detect_frame :: "real \<Rightarrow> real \<Rightarrow> nat option \<Rightarrow> real list \<Rightarrow> peak list" where
  "detect_frame sampleRate threshold maxPeaks frame =
     (let bins = length frame;
          binFactor = sampleRate / (real bins * 2);
          framePeaks = detect_loop frame binFactor threshold 1 (frame ! 0) (frame ! 1) [];
          framePeaks = sort_key freq framePeaks
      in case maxPeaks of
           None \<Rightarrow> framePeaks
         | Some n \<Rightarrow> lodash_last_n framePeaks n)"

definition detectPeaks ::
  "real list list \<Rightarrow> real \<Rightarrow> real \<Rightarrow> nat option \<Rightarrow> peak list list" where
  "detectPeaks spectrogram sampleRate threshold maxPeaks =
     map (detect_frame sampleRate threshold maxPeaks) spectrogram"

text \<open>
  The peak list in the words of the specification: the interior bins that
  strictly exceed both neighbours and the threshold, in bin order, each with
  frequency \<open>i * sampleRate / (2 * numBins)\<close>.
\<close>

definition spec_peaks :: "real \<Rightarrow> real \<Rightarrow> real list \<Rightarrow> peak list" where
  "spec_peaks sampleRate threshold frame =
     map (\<lambda>i. \<lparr>freq = real i * sampleRate / (2 * real (length frame)), amp = frame ! i\<rparr>)
       (filter (\<lambda>i. frame ! i > frame ! (i - 1) \<and> frame ! i > frame ! (i + 1) \<and> frame ! i > threshold)
          [1 ..< length frame - 1])"

section \<open>findCandidateIndex\<close>

text \<open>
  \<open>_.sortedIndex(array, value)\<close> of lodash 2.x: the binary search
  \<^verbatim>\<open>while (low < high) { mid = (low + high) >>> 1;
      array[mid] < value ? low = mid + 1 : high = mid; } return low;\<close>
\<close>

function sortedIndex_loop :: "real list \<Rightarrow> real \<Rightarrow> nat \<Rightarrow> nat \<Rightarrow> nat" where
  "sortedIndex_loop array v low high =
     (if low < high then
        (let mid = (low + high) div 2 in
           if array ! mid < v then sortedIndex_loop array v (mid + 1) high
           else sortedIndex_loop array v low mid)
      else low)"
  by pat_completeness auto
termination
  by (relation "measure (\<lambda>(array, v, low, high). high - low)") auto

declare sortedIndex_loop.simps [simp del]

definition sortedIndex :: "real list \<Rightarrow> real \<Rightarrow> nat" where
  "sortedIndex array v = sortedIndex_loop array v 0 (length array)"

text \<open>
  \<open>_.min(collection, callback)\<close> of lodash 2.x: it starts from
  \<open>computed = Infinity\<close> and replaces the result whenever
  \<open>current < computed\<close>, so it returns the first element whose computed
  value is the least.  It is applied to a non-empty list of indices whose
  computed values are finite.
\<close>

fun lodash_min_from :: "('a \<Rightarrow> real) \<Rightarrow> 'a \<Rightarrow> 'a list \<Rightarrow> 'a" where
  "lodash_min_from f best [] = best"
| "lodash_min_from f best (x # xs) =
     (if f x < f best then lodash_min_from f x xs else lodash_min_from f best xs)"

fun lodash_min :: "('a \<Rightarrow> real) \<Rightarrow> 'a list \<Rightarrow> 'a option" where
  "lodash_min f [] = None"
| "lodash_min f (x # xs) = Some (lodash_min_from f x xs)"

text \<open>
  The three tests push \<open>m\<close>, \<open>m-1\<close> and \<open>m+1\<close> in this order; the
  third test reads \<open>nextPeaks[m]\<close>, as the source does.  The result
  \<open>null\<close> is \<open>None\<close>.
\<close>

definition findCandidateIndex :: "real \<Rightarrow> real list \<Rightarrow> nat option" where
  "findCandidateIndex curPeak nextPeaks =
     (let m = sortedIndex nextPeaks curPeak;
          candidates =
            (if m < length nextPeaks \<and> \<bar>nextPeaks ! m - curPeak\<bar> \<le> matchingThreshold
             then [m] else []) @
            (if m > 0 \<and> \<bar>nextPeaks ! (m - 1) - curPeak\<bar> \<le> matchingThreshold
             then [m - 1] else []) @
            (if m + 1 < length nextPeaks \<and> \<bar>nextPeaks ! m - curPeak\<bar> \<le> matchingThreshold
             then [m + 1] else [])
      in lodash_min (\<lambda>val. \<bar>nextPeaks ! val - curPeak\<bar>) candidates)"

section \<open>trackPartials\<close>

text \<open>
  \<^verbatim>\<open>var trackComparison = function(track) { return _.last(track.peaks)['freq']; };\<close>
  Every track the tracker builds has at least one peak.
\<close>

definition trackComparison :: "track \<Rightarrow> real" where
  "trackComparison track = freq (last (peaks track))"

text \<open>
  \<open>_.pull(nextPeaks, nextPeaks[k])\<close> removes from the array every element
  that is strictly equal to the given one.  The elements are objects, so
  strict equality is identity; the entries of a frame are taken to be
  separate objects (as the peaks pushed by \<open>detectPeaks\<close> are), and the
  call then removes exactly position \<open>k\<close>.
\<close>

definition pull_at :: "'a list \<Rightarrow> nat \<Rightarrow> 'a list" where
  "pull_at xs k = take k xs @ drop (Suc k) xs"

text \<open>
  The variables the inner \<open>forEach\<close> mutates while it walks the sorted
  snapshot of the active tracks: the pool \<open>nextPeaks\<close>, the result array
  \<open>tracks\<close> and the live array \<open>curTracks\<close>.  The source removes a dying
  track from \<open>curTracks\<close> with \<open>_.pull\<close> and extends a surviving one in
  place; \<open>curTracks_of\<close> holds the processed tracks that are still alive,
  in snapshot order, which is the content of \<open>curTracks\<close> once the walk is
  over.
\<close>

record match_state =
  nextPeaks_of :: "peak list"
  tracks_of :: "track list"
  curTracks_of :: "track list"

text \<open>
  \<^verbatim>\<open>track.peaks.push({ freq: curFreq, amp: 0 }); tracks.push(track);
  _.pull(curTracks, track);\<close>
\<close>

definition die :: "track \<Rightarrow> real \<Rightarrow> match_state \<Rightarrow> match_state" where
  "die track curFreq st =
     st\<lparr>tracks_of := tracks_of st @ [track\<lparr>peaks := peaks track @ [\<lparr>freq = curFreq, amp = 0\<rparr>]\<rparr>]\<rparr>"

text \<open>
  \<^verbatim>\<open>track.peaks.push(nextPeaks[k]); _.pull(nextPeaks, nextPeaks[k]);\<close>
\<close>

definition take_peak :: "track \<Rightarrow> nat \<Rightarrow> match_state \<Rightarrow> match_state" where
  "take_peak track k st =
     st\<lparr>nextPeaks_of := pull_at (nextPeaks_of st) k,
        curTracks_of := curTracks_of st @ [track\<lparr>peaks := peaks track @ [nextPeaks_of st ! k]\<rparr>]\<rparr>"

text \<open>
  The callback of the inner \<open>forEach\<close>, called with the track at position
  \<open>trackIdx\<close> of the snapshot \<open>collection\<close>.
  \<open>_(collection).rest(trackIdx)\<close> drops the first \<open>trackIdx\<close> elements, so
  \<open>unmatchedTrackFreqs\<close> starts with the frequency of the track itself; the
  tracks from \<open>trackIdx\<close> on have not been extended in this frame yet.
  \<open>unmatchedTrackFreqs[null]\<close> is \<open>undefined\<close>, which is not \<open>==\<close> to a
  number.
\<close>

definition match_track :: "track list \<Rightarrow> nat \<Rightarrow> match_state \<Rightarrow> match_state" where
  "match_track collection trackIdx st =
     (let track = collection ! trackIdx;
          curFreq = freq (last (peaks track));
          nextFreqs = map freq (nextPeaks_of st)
      in case findCandidateIndex curFreq nextFreqs of
           None \<Rightarrow> die track curFreq st
         | Some candidateIdx \<Rightarrow>
             (let unmatchedTrackFreqs =
                    map freq (map last (map peaks (drop trackIdx collection)));
                  possibleTrackIdx =
                    findCandidateIndex (nextFreqs ! candidateIdx) unmatchedTrackFreqs
              in if (case possibleTrackIdx of
                       None \<Rightarrow> False
                     | Some j \<Rightarrow> unmatchedTrackFreqs ! j = curFreq)
                 then take_peak track candidateIdx st
                 else if candidateIdx = 0 \<or>
                         \<bar>nextFreqs ! (candidateIdx - 1) - curFreq\<bar> > matchingThreshold
                 then die track curFreq st
                 else take_peak track (candidateIdx - 1) st))"

text \<open>
  The first half of the callback of the outer \<open>forEach\<close>: the pool is a
  copy of the frame, the active tracks are sorted (\<open>_.sortBy\<close> is a stable
  ascending sort) and the inner \<open>forEach\<close> walks the sorted snapshot.
  The argument \<open>s\<close> is the pair \<open>(tracks, curTracks)\<close>.
\<close>

definition match_tracks :: "peak list \<Rightarrow> track list \<times> track list \<Rightarrow> match_state" where
  "match_tracks frame s =
     (let nextPeaks = frame;
          curTracks = sort_key trackComparison (snd s)
      in fold (match_track curTracks) [0 ..< length curTracks]
           \<lparr>nextPeaks_of = nextPeaks, tracks_of = fst s, curTracks_of = []\<rparr>)"

text \<open>
  The whole callback of the outer \<open>forEach\<close> over
  \<open>_(peaksFrames).rest()\<close>: after the walk every peak left in the pool is
  pushed as a new track.  \<open>frameIdx\<close> is the index in the shortened array
  that \<open>rest()\<close> returns.
\<close>

definition process_frame ::
  "peak list \<Rightarrow> nat \<Rightarrow> track list \<times> track list \<Rightarrow> track list \<times> track list" where
  "process_frame frame frameIdx s =
     (let st = match_tracks frame s
      in (tracks_of st,
          curTracks_of st @
            map (\<lambda>peak. \<lparr>birth = frameIdx, peaks = [\<lparr>freq = freq peak, amp = 0\<rparr>, peak]\<rparr>)
              (nextPeaks_of st)))"

text \<open>
  The pair \<open>(tracks, curTracks)\<close> after the two top-level loops.
  \<open>peaksFrames[0]\<close> is \<open>undefined\<close> for an empty input and the first
  \<open>forEach\<close> then does nothing.
\<close>

definition track_frames :: "peak list list \<Rightarrow> track list \<times> track list" where
  "track_frames peaksFrames =
     (let curTracks = map (\<lambda>peak. \<lparr>birth = 0, peaks = [peak]\<rparr>)
                        (case peaksFrames of [] \<Rightarrow> [] | frame0 # _ \<Rightarrow> frame0)
      in fold (\<lambda>(frameIdx, frame). process_frame frame frameIdx)
           (enumerate 0 (tl peaksFrames)) ([], curTracks))"

text \<open>
  The last loop pushes the tracks that are still active after the finalized
  ones.  The argument \<open>maxPeaks\<close> is not used by the source.
\<close>

definition trackPartials :: "peak list list \<Rightarrow> nat option \<Rightarrow> track list" where
  "trackPartials peaksFrames maxPeaks =
     (let s = track_frames peaksFrames in fst s @ snd s)"

section \<open>synthesize\<close>

text \<open>
  A JavaScript number: a finite value, one of the two infinities, or
  \<open>NaN\<close>.  The sign of zero is not modelled; a zero divisor is \<open>+0\<close>,
  which is what \<open>abs\<close> and the maximum of magnitudes deliver.
\<close>

datatype jsnum = Num real | PosInfinity | NegInfinity | NaN

definition js_inf :: "bool \<Rightarrow> jsnum" where
  "js_inf positive = (if positive then PosInfinity else NegInfinity)"

fun js_times :: "jsnum \<Rightarrow> jsnum \<Rightarrow> jsnum" where
  "js_times (Num a) (Num b) = Num (a * b)"
| "js_times NaN y = NaN"
| "js_times x NaN = NaN"
| "js_times PosInfinity (Num b) = (if b = 0 then NaN else js_inf (0 < b))"
| "js_times NegInfinity (Num b) = (if b = 0 then NaN else js_inf (b < 0))"
| "js_times (Num a) PosInfinity = (if a = 0 then NaN else js_inf (0 < a))"
| "js_times (Num a) NegInfinity = (if a = 0 then NaN else js_inf (a < 0))"
| "js_times PosInfinity PosInfinity = PosInfinity"
| "js_times PosInfinity NegInfinity = NegInfinity"
| "js_times NegInfinity PosInfinity = NegInfinity"
| "js_times NegInfinity NegInfinity = PosInfinity"

fun js_div :: "jsnum \<Rightarrow> jsnum \<Rightarrow> jsnum" where
  "js_div (Num a) (Num b) =
     (if b \<noteq> 0 then Num (a / b) else if a = 0 then NaN else js_inf (0 < a))"
| "js_div NaN y = NaN"
| "js_div x NaN = NaN"
| "js_div (Num a) PosInfinity = Num 0"
| "js_div (Num a) NegInfinity = Num 0"
| "js_div PosInfinity (Num b) = js_inf (0 \<le> b)"
| "js_div NegInfinity (Num b) = js_inf (b < 0)"
| "js_div PosInfinity PosInfinity = NaN"
| "js_div PosInfinity NegInfinity = NaN"
| "js_div NegInfinity PosInfinity = NaN"
| "js_div NegInfinity NegInfinity = NaN"

fun js_plus :: "jsnum \<Rightarrow> jsnum \<Rightarrow> jsnum" where
  "js_plus (Num a) (Num b) = Num (a + b)"
| "js_plus NaN y = NaN"
| "js_plus x NaN = NaN"
| "js_plus PosInfinity NegInfinity = NaN"
| "js_plus NegInfinity PosInfinity = NaN"
| "js_plus PosInfinity y = PosInfinity"
| "js_plus NegInfinity y = NegInfinity"
| "js_plus (Num a) y = y"

fun js_abs :: "jsnum \<Rightarrow> jsnum" where
  "js_abs (Num a) = Num \<bar>a\<bar>"
| "js_abs PosInfinity = PosInfinity"
| "js_abs NegInfinity = PosInfinity"
| "js_abs NaN = NaN"

fun js_sin :: "jsnum \<Rightarrow> jsnum" where
  "js_sin (Num a) = Num (sin a)"
| "js_sin x = NaN"

text \<open>\<open>x > y\<close> on JavaScript numbers; any comparison with \<open>NaN\<close> is false.\<close>

fun js_gt :: "jsnum \<Rightarrow> jsnum \<Rightarrow> bool" where
  "js_gt (Num a) (Num b) = (b < a)"
| "js_gt NaN y = False"
| "js_gt x NaN = False"
| "js_gt x PosInfinity = False"
| "js_gt NegInfinity y = False"
| "js_gt PosInfinity y = True"
| "js_gt (Num a) NegInfinity = True"

text \<open>
  \<open>_.max(array)\<close> of lodash 2.x: it starts from \<open>-Infinity\<close> and replaces
  the result by every value that is greater than it; the maximum of an empty array
  is \<open>-Infinity\<close>.
\<close>

definition lodash_max :: "jsnum list \<Rightarrow> jsnum" where
  "lodash_max array =
     foldl (\<lambda>result v. if js_gt v result then v else result) NegInfinity array"

text \<open>
  \<open>new Float64Array(length)\<close> for a number: the length goes through
  \<open>ToIndex\<close>, which truncates it to an integer (\<open>NaN\<close> to \<open>0\<close>) and
  throws a \<open>RangeError\<close> unless the integer lies between \<open>0\<close> and
  \<open>2^53 - 1\<close>.  The array is filled with zeros.  The memory limit of the
  engine is not modelled.
\<close>

datatype error = RangeError

fun new_Float64Array :: "jsnum \<Rightarrow> error + jsnum list" where
  "new_Float64Array (Num r) =
     (if r \<le> -1 \<or> 2 ^ 53 \<le> r then Inl RangeError
      else Inr (replicate (nat \<lfloor>r\<rfloor>) (Num 0)))"
| "new_Float64Array NaN = Inr []"
| "new_Float64Array PosInfinity = Inl RangeError"
| "new_Float64Array NegInfinity = Inl RangeError"

text \<open>
  The innermost \<^verbatim>\<open>while (i < end)\<close> loop of one segment (\<open>endIdx\<close>
  is the source's \<open>end\<close>), with the variables it advances: \<open>i\<close>, \<open>instAmp\<close>, \<open>t\<close> and the buffer.  (\<open>instFreq\<close> is
  advanced by the source too but never read.)  A write beyond the end of a
  typed array is ignored, as is an update of a list beyond its length.
\<close>

function segment_loop ::
  "jsnum \<Rightarrow> real \<Rightarrow> real \<Rightarrow> real \<Rightarrow> nat \<Rightarrow> nat \<Rightarrow> real \<Rightarrow> nat \<Rightarrow> jsnum list \<Rightarrow> nat \<times> jsnum list" where
  "segment_loop FREQ_FACTOR peakFreq stepFreq stepAmp endIdx i instAmp t audioBuffer =
     (if i < endIdx then
        segment_loop FREQ_FACTOR peakFreq stepFreq stepAmp endIdx (i + 1) (instAmp + stepAmp) (t + 1)
          (audioBuffer[i := js_plus (audioBuffer ! i)
             (js_times (Num (2.0 * instAmp))
                (js_sin (js_times (js_times FREQ_FACTOR (Num (real t)))
                           (Num (peakFreq + stepFreq * 0.5 * real t)))))])
      else (i, audioBuffer))"
  by pat_completeness auto
termination
  by (relation "measure (\<lambda>(FREQ_FACTOR, peakFreq, stepFreq, stepAmp, endIdx, i, instAmp, t, audioBuffer).
        endIdx - i)") auto

declare segment_loop.simps [simp del]

text \<open>
  The callback of the \<open>forEach\<close> over \<open>track.peaks\<close>, as a recursion over
  the peaks that are left: the last peak returns at once, every other peak
  renders the segment to its successor \<open>colp[idxp+1]\<close>.  The sample index
  \<open>i\<close> is carried from one segment to the next.  \<open>instPhase\<close> is \<open>0\<close>
  throughout, so its two \<open>while\<close> loops never run.
\<close>

fun render_peaks :: "nat \<Rightarrow> jsnum \<Rightarrow> peak list \<Rightarrow> nat \<times> jsnum list \<Rightarrow> nat \<times> jsnum list" where
  "render_peaks frameLen FREQ_FACTOR (peak # next # colp) (i, audioBuffer) =
     render_peaks frameLen FREQ_FACTOR (next # colp)
       (let stepFreq = (freq next - freq peak) / real frameLen;
            stepAmp = (amp next - amp peak) / real frameLen
        in segment_loop FREQ_FACTOR (freq peak) stepFreq stepAmp (i + frameLen) i (amp peak) 0
             audioBuffer)"
| "render_peaks frameLen FREQ_FACTOR colp (i, audioBuffer) = (i, audioBuffer)"

definition render_track :: "nat \<Rightarrow> jsnum \<Rightarrow> track \<Rightarrow> jsnum list \<Rightarrow> jsnum list" where
  "render_track frameLen FREQ_FACTOR track audioBuffer =
     snd (render_peaks frameLen FREQ_FACTOR (peaks track) (birth track * frameLen, audioBuffer))"

text \<open>The buffer after the \<open>forEach\<close> over the tracks, before it is normalized.\<close>

definition render :: "track list \<Rightarrow> nat \<Rightarrow> real \<Rightarrow> jsnum list \<Rightarrow> jsnum list" where
  "render tracks frameLen samplingRate audioBuffer =
     (let FREQ_FACTOR = js_div (Num (2.0 * pi)) (Num samplingRate)
      in fold (render_track frameLen FREQ_FACTOR) tracks audioBuffer)"

text \<open>
  \<^verbatim>\<open>var maxAmp = _(audioBuffer).map(abs).max().value();
  for (var i=0; i<bufferSize; ++i) { audioBuffer[i] /= maxAmp; }\<close>
\<close>

definition normalize_buffer :: "jsnum list \<Rightarrow> jsnum list" where
  "normalize_buffer audioBuffer =
     (let maxAmp = lodash_max (map js_abs audioBuffer)
      in map (\<lambda>x. js_div x maxAmp) audioBuffer)"

definition numFrames_of :: "track list \<Rightarrow> jsnum" where
  "numFrames_of tracks =
     lodash_max (map (\<lambda>track. Num (real (birth track + length (peaks track)))) tracks)"

text \<open>
  \<open>synthesize\<close> up to the end of the \<open>forEach\<close> over the tracks: the
  zero-filled \<open>Float64Array\<close> of \<open>numFrames * frameLen\<close> samples with
  every track rendered into it.
\<close>

definition rendered_buffer :: "track list \<Rightarrow> nat \<Rightarrow> real \<Rightarrow> error + jsnum list" where
  "rendered_buffer tracks frameLen samplingRate =
     (let numFrames = numFrames_of tracks;
          bufferSize = js_times numFrames (Num (real frameLen))
      in case new_Float64Array bufferSize of
           Inl e \<Rightarrow> Inl e
         | Inr audioBuffer \<Rightarrow> Inr (render tracks frameLen samplingRate audioBuffer))"

definition synthesize :: "track list \<Rightarrow> nat \<Rightarrow> real \<Rightarrow> error + jsnum list" where
  "synthesize tracks frameLen samplingRate =
     (case rendered_buffer tracks frameLen samplingRate of
        Inl e \<Rightarrow> Inl e
      | Inr audioBuffer \<Rightarrow> Inr (normalize_buffer audioBuffer))"

section \<open>Occurrences of peaks in tracks\<close>

text \<open>
  The entry at position \<open>i\<close> of a track stands for frame \<open>birth + i\<close>
  (it is the entry \<open>synthesize\<close> renders there).  A slot is the pair of
  that frame and the entry; \<open>slots\<close> collects the slots of a track,
  \<open>all_slots\<close> those of a list of tracks, and \<open>input_slots\<close> pairs every
  peak of the input with the index of its frame.  All three are multisets:
  equal entries are counted as often as they occur.
\<close>

definition slots :: "track \<Rightarrow> (nat \<times> peak) multiset" where
  "slots t = mset (zip [birth t ..< birth t + length (peaks t)] (peaks t))"

definition all_slots :: "track list \<Rightarrow> (nat \<times> peak) multiset" where
  "all_slots ts = sum_list (map slots ts)"



section \<open>Verification: detectPeaks\<close>

lemma detect_loop_spec:
  "1 \<le> i \<Longrightarrow>
   detect_loop frame bf th i (frame ! (i - 1)) (frame ! i) acc =
     acc @ map (\<lambda>j. \<lparr>freq = real j * bf, amp = frame ! j\<rparr>)
       (filter (\<lambda>j. frame ! j > frame ! (j - 1) \<and> frame ! j > frame ! (j + 1) \<and> frame ! j > th)
          [i ..< length frame - 1])"
proof (induction "length frame - i" arbitrary: i acc)
  case 0
  then show ?case by (subst detect_loop.simps) simp
next
  case (Suc n)
  show ?case
  proof (cases "i + 1 < length frame")
    case False
    then show ?thesis by (subst detect_loop.simps) simp
  next
    case True
    then have upt: "[i ..< length frame - Suc 0] = i # [Suc i ..< length frame - Suc 0]"
      by (simp add: upt_conv_Cons)
    have n: "n = length frame - Suc i" using Suc.hyps(2) by simp
    have ih: "detect_loop frame bf th (Suc i) (frame ! i) (frame ! Suc i) acc' =
       acc' @ map (\<lambda>j. \<lparr>freq = real j * bf, amp = frame ! j\<rparr>)
       (filter (\<lambda>j. frame ! j > frame ! (j - 1) \<and> frame ! j > frame ! (j + 1) \<and> frame ! j > th)
          [Suc i ..< length frame - 1])" for acc'
      using Suc.hyps(1)[OF n, of acc'] by simp
    show ?thesis
      using True by (subst detect_loop.simps) (simp add: upt ih Let_def)
  qed
qed

lemma sorted_wrt_map_filter_upt:
  "0 < c \<Longrightarrow> sorted_wrt (<) (map (\<lambda>j. real j * c) (filter P [a ..< b]))"
  by (induction b) (auto simp: sorted_wrt_append)

lemma spec_peaks_sorted:
  assumes "0 < sampleRate"
  shows "sorted_wrt (<) (map freq (spec_peaks sampleRate threshold frame))"
proof (cases "frame = []")
  case True
  then show ?thesis by (simp add: spec_peaks_def)
next
  case False
  then have c: "0 < sampleRate / (2 * real (length frame))" using assms by simp
  have "map freq (spec_peaks sampleRate threshold frame) =
     map (\<lambda>j. real j * (sampleRate / (2 * real (length frame))))
       (filter (\<lambda>i. frame ! i > frame ! (i - 1) \<and> frame ! i > frame ! (i + 1) \<and> frame ! i > threshold)
          [1 ..< length frame - 1])"
    by (simp add: spec_peaks_def comp_def)
  then show ?thesis using sorted_wrt_map_filter_upt[OF c] by simp
qed

lemma detect_frame_None:
  assumes "0 < sampleRate"
  shows "detect_frame sampleRate threshold None frame = spec_peaks sampleRate threshold frame"
proof -
  have loop: "detect_loop frame (sampleRate / (real (length frame) * 2)) threshold (Suc 0) (frame ! 0) (frame ! Suc 0) []
      = spec_peaks sampleRate threshold frame"
    using detect_loop_spec[of 1 frame "sampleRate / (real (length frame) * 2)" threshold "[]"]
    by (simp add: spec_peaks_def mult.commute)
  have "sorted (map freq (spec_peaks sampleRate threshold frame))"
    using spec_peaks_sorted[OF assms] by (rule strict_sorted_imp_sorted)
  then show ?thesis
    by (simp add: detect_frame_def loop sort_key_id_if_sorted)
qed






subsection \<open>The peak cap\<close>

lemma detect_frame_Some:
  "detect_frame sampleRate threshold (Some n) frame =
     lodash_last_n (detect_frame sampleRate threshold None frame) n"
  by (simp add: detect_frame_def Let_def)

lemma detect_frame_sorted: "sorted (map freq (detect_frame sampleRate threshold None frame))"
  by (simp add: detect_frame_def Let_def)

text \<open>
  Claim C7.  With \<open>maxPeaks = n\<close>, every frame of the result is the last
  \<open>n\<close> entries of the ascending-frequency peak list the uncapped call
  returns for that frame: it has \<open>min n (length full)\<close> peaks, it is the
  whole list when that has at most \<open>n\<close> peaks, and no dropped peak has a
  higher frequency than a retained one.  Amplitudes play no part: in the
  witness the peak of amplitude 9 is the one dropped.
\<close>

theorem detectPeaks_maxPeaks_keeps_highest_freq:
  "length (detectPeaks spectrogram sampleRate threshold (Some n)) = length spectrogram \<and>
   (\<forall>k < length spectrogram.
      (let full = detectPeaks spectrogram sampleRate threshold None ! k;
           kept = detectPeaks spectrogram sampleRate threshold (Some n) ! k
       in sorted (map freq full) \<and>
          kept = drop (length full - n) full \<and>
          length kept = min n (length full) \<and>
          (length full \<le> n \<longrightarrow> kept = full) \<and>
          (\<forall>p \<in> set (take (length full - n) full). \<forall>q \<in> set kept. freq p \<le> freq q)))"
proof -
  have split: "\<forall>p \<in> set (take j full). \<forall>q \<in> set (drop j full). freq p \<le> freq q"
    if "sorted (map freq full)" for full :: "peak list" and j
  proof -
    from that have "sorted (map freq (take j full @ drop j full))" by simp
    then show ?thesis unfolding map_append sorted_append by auto
  qed
  have one: "sorted (map freq full) \<and>
          lodash_last_n full n = drop (length full - n) full \<and>
          length (lodash_last_n full n) = min n (length full) \<and>
          (length full \<le> n \<longrightarrow> lodash_last_n full n = full) \<and>
          (\<forall>p \<in> set (take (length full - n) full). \<forall>q \<in> set (lodash_last_n full n). freq p \<le> freq q)"
    if "full = detect_frame sampleRate threshold None frame" for full frame
  proof -
    have s: "sorted (map freq full)" using that detect_frame_sorted by simp
    have l: "length (lodash_last_n full n) = min n (length full)"
      by (simp add: lodash_last_n_def)
    show ?thesis using s l split[OF s, of "length full - n"]
      by (simp add: lodash_last_n_def)
  qed
  have m: "a - (a - n) = min n a" for a :: nat by arith
  show ?thesis
    using one by (simp add: detectPeaks_def detect_frame_Some Let_def m)
qed

theorem detectPeaks_maxPeaks_keeps_highest_freq_witness:
  "detectPeaks [[0, 9, 0, 3, 2, 5, 1]] 14 0 None =
     [[\<lparr>freq = 1, amp = 9\<rparr>, \<lparr>freq = 3, amp = 3\<rparr>, \<lparr>freq = 5, amp = 5\<rparr>]] \<and>
   detectPeaks [[0, 9, 0, 3, 2, 5, 1]] 14 0 (Some 2) =
     [[\<lparr>freq = 3, amp = 3\<rparr>, \<lparr>freq = 5, amp = 5\<rparr>]]"
proof -
  have pos: "(0::real) < 14" by simp
  have u: "[1 ..< 6] = [1, 2, 3, 4, 5::nat]" by (simp add: upt_rec)
  have full: "detectPeaks [[0, 9, 0, 3, 2, 5, 1]] 14 0 None =
     [[\<lparr>freq = 1, amp = 9\<rparr>, \<lparr>freq = 3, amp = 3\<rparr>, \<lparr>freq = 5, amp = 5\<rparr>]]"
    by (simp add: detectPeaks_def detect_frame_None[OF pos] spec_peaks_def u)
  show ?thesis
    using detectPeaks_maxPeaks_keeps_highest_freq[of "[[0, 9, 0, 3, 2, 5, 1]]" 14 0 2]
    by (auto simp: full Let_def length_Suc_conv)
qed

section \<open>Verification: findCandidateIndex\<close>

lemma sortedIndex_loop_bounds:
  assumes "sorted xs" "low \<le> high" "high \<le> length xs"
    "\<forall>j < low. xs ! j < v" "\<forall>j. high \<le> j \<and> j < length xs \<longrightarrow> v \<le> xs ! j"
  shows "sortedIndex_loop xs v low high \<le> length xs \<and>
         (\<forall>j < sortedIndex_loop xs v low high. xs ! j < v) \<and>
         (\<forall>j. sortedIndex_loop xs v low high \<le> j \<and> j < length xs \<longrightarrow> v \<le> xs ! j)"
  using assms
proof (induction xs v low high rule: sortedIndex_loop.induct)
  case (1 array v low high)
  show ?case
  proof (cases "low < high")
    case False
    with "1.prems" have "low = high" by simp
    with "1.prems" show ?thesis by (subst (1 2 3) sortedIndex_loop.simps) simp
  next
    case True
    define mid where "mid = (low + high) div 2"
    have mid: "low \<le> mid" "mid < high" using True by (simp_all add: mid_def)
    show ?thesis
    proof (cases "array ! mid < v")
      case lt: True
      have below: "\<forall>j < mid + 1. array ! j < v"
      proof (intro allI impI)
        fix j assume "j < mid + 1"
        then have "j \<le> mid" by simp
        moreover have "mid < length array" using mid "1.prems" by simp
        ultimately have "array ! j \<le> array ! mid"
          using "1.prems"(1) by (simp add: sorted_nth_mono)
        with lt show "array ! j < v" by simp
      qed
      have "sortedIndex_loop array v low high = sortedIndex_loop array v (mid + 1) high"
        using True lt by (subst sortedIndex_loop.simps) (simp add: mid_def Let_def)
      moreover have "sortedIndex_loop array v (mid + 1) high \<le> length array \<and>
         (\<forall>j < sortedIndex_loop array v (mid + 1) high. array ! j < v) \<and>
         (\<forall>j. sortedIndex_loop array v (mid + 1) high \<le> j \<and> j < length array \<longrightarrow> v \<le> array ! j)"
        using "1.IH"(1)[OF True mid_def lt "1.prems"(1) _ "1.prems"(3) below "1.prems"(5)] mid
        by simp
      ultimately show ?thesis by simp
    next
      case ge: False
      have above: "\<forall>j. mid \<le> j \<and> j < length array \<longrightarrow> v \<le> array ! j"
      proof (intro allI impI)
        fix j assume "mid \<le> j \<and> j < length array"
        then have "array ! mid \<le> array ! j"
          using "1.prems"(1) by (simp add: sorted_nth_mono)
        with ge show "v \<le> array ! j" by simp
      qed
      have "sortedIndex_loop array v low high = sortedIndex_loop array v low mid"
        using True ge by (subst sortedIndex_loop.simps) (simp add: mid_def Let_def)
      moreover have "sortedIndex_loop array v low mid \<le> length array \<and>
         (\<forall>j < sortedIndex_loop array v low mid. array ! j < v) \<and>
         (\<forall>j. sortedIndex_loop array v low mid \<le> j \<and> j < length array \<longrightarrow> v \<le> array ! j)"
        using "1.IH"(2)[OF True mid_def ge "1.prems"(1) _ _ "1.prems"(4) above] mid "1.prems"(3)
        by simp
      ultimately show ?thesis by simp
    qed
  qed
qed

lemma sortedIndex_sorted:
  assumes "sorted xs"
  shows "sortedIndex xs v \<le> length xs"
    and "j < sortedIndex xs v \<Longrightarrow> xs ! j < v"
    and "sortedIndex xs v \<le> j \<Longrightarrow> j < length xs \<Longrightarrow> v \<le> xs ! j"
  using sortedIndex_loop_bounds[OF assms, of 0 "length xs" v]
  by (simp_all add: sortedIndex_def)


lemma sortedIndex_count:
  assumes "sorted xs"
  shows "sortedIndex xs v = length (filter (\<lambda>x. x < v) xs)"
proof -
  define m where "m = sortedIndex xs v"
  have m: "m \<le> length xs" using sortedIndex_sorted(1)[OF assms] by (simp add: m_def)
  have "\<forall>x \<in> set (take m xs). x < v"
    using sortedIndex_sorted(2)[OF assms, of _ v] m
    by (auto simp: in_set_conv_nth m_def)
  then have lo: "filter (\<lambda>x. x < v) (take m xs) = take m xs" by simp
  have "\<forall>x \<in> set (drop m xs). \<not> x < v"
  proof
    fix x assume "x \<in> set (drop m xs)"
    then obtain i where i: "i < length xs - m" "x = xs ! (m + i)"
      by (auto simp: in_set_conv_nth)
    then have "v \<le> xs ! (m + i)"
      using sortedIndex_sorted(3)[OF assms, of v "m + i"] by (simp add: m_def)
    with i show "\<not> x < v" by simp
  qed
  then have hi: "filter (\<lambda>x. x < v) (drop m xs) = []" by simp
  have "filter (\<lambda>x. x < v) xs = filter (\<lambda>x. x < v) (take m xs @ drop m xs)" by simp
  also have "\<dots> = take m xs" unfolding filter_append lo hi by simp
  finally show ?thesis using m by (simp add: m_def)
qed

lemma findCandidateIndex_cases:
  fixes xs :: "real list" and c :: real
  assumes "sorted xs"
  defines "m \<equiv> sortedIndex xs c"
  defines "near \<equiv> (\<lambda>j. j < length xs \<and> \<bar>xs ! j - c\<bar> \<le> matchingThreshold)"
  shows "findCandidateIndex c xs =
           (if near m \<and> (m = 0 \<or> \<not> near (m - 1) \<or> \<bar>xs ! m - c\<bar> \<le> \<bar>xs ! (m - 1) - c\<bar>)
            then Some m
            else if 0 < m \<and> near (m - 1) then Some (m - 1) else None)"
proof -
  have mlen: "m \<le> length xs" using sortedIndex_sorted(1)[OF assms(1)] by (simp add: m_def)
  have up: "\<bar>xs ! m - c\<bar> \<le> \<bar>xs ! (m + 1) - c\<bar>" if "m + 1 < length xs"
  proof -
    have "c \<le> xs ! m" using sortedIndex_sorted(3)[OF assms(1), of c m] that by (simp add: m_def)
    moreover have "xs ! m \<le> xs ! (m + 1)" using assms(1) that by (simp add: sorted_nth_mono)
    ultimately show ?thesis by simp
  qed
  have m1: "m - 1 < length xs" if "0 < m" using that mlen by simp
  show ?thesis
    unfolding findCandidateIndex_def Let_def m_def[symmetric]
    using up m1 by (auto simp: near_def)
qed






section \<open>Verification: trackPartials\<close>

lemma findCandidateIndex_single: "findCandidateIndex f [f] = Some 0"
proof -
  have s: "sorted [f]" by simp
  show ?thesis
    using findCandidateIndex_cases[OF s, of f] sortedIndex_count[OF s, of f]
    by (simp add: matchingThreshold_def)
qed

lemma process_frame_single:
  assumes "freq (last (peaks T)) = freq p"
  shows "process_frame [p] k (tr, [T]) = (tr, [T\<lparr>peaks := peaks T @ [p]\<rparr>])"
proof -
  have "match_track [T] 0 \<lparr>nextPeaks_of = [p], tracks_of = tr, curTracks_of = []\<rparr> =
          \<lparr>nextPeaks_of = [], tracks_of = tr, curTracks_of = [T\<lparr>peaks := peaks T @ [p]\<rparr>]\<rparr>"
    using assms
    by (simp add: match_track_def Let_def findCandidateIndex_single take_peak_def pull_at_def)
  then show ?thesis
    by (simp add: process_frame_def match_tracks_def Let_def)
qed

lemma fold_constant_frames:
  "fold (\<lambda>(frameIdx, frame). process_frame frame frameIdx) (enumerate k (replicate n [p]))
     (tr, [\<lparr>birth = b, peaks = replicate (Suc j) p\<rparr>]) =
   (tr, [\<lparr>birth = b, peaks = replicate (Suc j + n) p\<rparr>])"
proof (induction n arbitrary: k j)
  case 0
  show ?case by simp
next
  case (Suc n)
  have step: "process_frame [p] k (tr, [\<lparr>birth = b, peaks = replicate (Suc j) p\<rparr>]) =
      (tr, [\<lparr>birth = b, peaks = replicate (Suc (Suc j)) p\<rparr>])"
    using process_frame_single[of "\<lparr>birth = b, peaks = replicate (Suc j) p\<rparr>" p k tr]
    by (simp add: replicate_append_same)
  have e: "enumerate k (replicate (Suc n) [p]) = (k, [p]) # enumerate (Suc k) (replicate n [p])"
    by simp
  show ?case
    unfolding e using Suc.IH[of "Suc k" "Suc j"] by (simp add: step del: replicate.simps)
qed

text \<open>
  Claim C8.  For \<open>N \<ge> 1\<close> frames that each hold the same single peak,
  \<open>trackPartials\<close> returns exactly one track; it is born in frame 0 and its
  peaks are the \<open>N\<close> input peaks, with no synthetic zero-amplitude entry
  appended.
\<close>

theorem trackPartials_constant_peak:
  assumes "1 \<le> N"
  shows "trackPartials (replicate N [p]) maxPeaks = [\<lparr>birth = 0, peaks = replicate N p\<rparr>]"
proof -
  from assms obtain n where N: "N = Suc n" by (cases N) simp_all
  have "track_frames (replicate (Suc n) [p]) = ([], [\<lparr>birth = 0, peaks = replicate (Suc n) p\<rparr>])"
    using fold_constant_frames[of 0 n p "[]" 0 0]
    by (simp add: track_frames_def)
  then show ?thesis by (simp add: trackPartials_def N)
qed

theorem trackPartials_constant_peak_witness:
  "(1::nat) \<le> 3 \<and>
   trackPartials [[\<lparr>freq = 440, amp = 1\<rparr>], [\<lparr>freq = 440, amp = 1\<rparr>], [\<lparr>freq = 440, amp = 1\<rparr>]] None =
     [\<lparr>birth = 0, peaks = [\<lparr>freq = 440, amp = 1\<rparr>, \<lparr>freq = 440, amp = 1\<rparr>, \<lparr>freq = 440, amp = 1\<rparr>]\<rparr>]"
proof -
  have n: "(1::nat) \<le> 3" by simp
  have r: "replicate 3 x = [x, x, x]" for x :: 'a by (simp add: numeral_3_eq_3)
  show ?thesis
    using trackPartials_constant_peak[OF n, of "\<lparr>freq = 440, amp = 1\<rparr>" None]
    by (simp add: r)
qed


lemma track_frames_append:
  assumes "fs \<noteq> []"
  shows "track_frames (fs @ gs) =
           fold (\<lambda>(frameIdx, frame). process_frame frame frameIdx)
             (enumerate (length fs - 1) gs) (track_frames fs)"
proof -
  from assms obtain frame0 rest where fs: "fs = frame0 # rest" by (cases fs) simp_all
  show ?thesis
    by (simp add: track_frames_def fs enumerate_append_eq)
qed

text \<open>
  Claim C1, as amended.  Let \<open>f > 0\<close> be the index of a frame of the
  input.  The state after frame \<open>f\<close> is the state after the walk over the
  active tracks (\<open>match_tracks\<close>) with one new track appended for every peak
  the walk left in the pool; that track has \<open>birth = f - 1\<close>, the index of
  the frame among the later frames, and the peaks
  \<open>[{freq: peak.freq, amp: 0}, peak]\<close>.  The frames after \<open>f\<close> continue
  from this state.
\<close>

theorem unmatched_peaks_start_tracks:
  assumes "0 < f" and "f < length peaksFrames"
  shows "track_frames (take (Suc f) peaksFrames) =
           (let st = match_tracks (peaksFrames ! f) (track_frames (take f peaksFrames))
            in (tracks_of st,
                curTracks_of st @
                  map (\<lambda>peak. \<lparr>birth = f - 1, peaks = [\<lparr>freq = freq peak, amp = 0\<rparr>, peak]\<rparr>)
                    (nextPeaks_of st))) \<and>
         track_frames peaksFrames =
           fold (\<lambda>(frameIdx, frame). process_frame frame frameIdx)
             (enumerate f (drop (Suc f) peaksFrames)) (track_frames (take (Suc f) peaksFrames))"
proof -
  have ne: "take f peaksFrames \<noteq> []" using assms by auto
  have len: "length (take f peaksFrames) - 1 = f - 1" using assms by simp
  have "take (Suc f) peaksFrames = take f peaksFrames @ [peaksFrames ! f]"
    using assms by (simp add: take_Suc_conv_app_nth)
  then have one: "track_frames (take (Suc f) peaksFrames) =
      process_frame (peaksFrames ! f) (f - 1) (track_frames (take f peaksFrames))"
    using track_frames_append[OF ne, of "[peaksFrames ! f]"] len by simp
  have ne': "take (Suc f) peaksFrames \<noteq> []" using assms by auto
  have len': "length (take (Suc f) peaksFrames) - 1 = f" using assms by simp
  have rest: "track_frames peaksFrames =
           fold (\<lambda>(frameIdx, frame). process_frame frame frameIdx)
             (enumerate f (drop (Suc f) peaksFrames)) (track_frames (take (Suc f) peaksFrames))"
    using track_frames_append[OF ne', of "drop (Suc f) peaksFrames"] len' by simp
  from one rest show ?thesis by (simp add: process_frame_def)
qed

theorem unmatched_peaks_start_tracks_witness:
  "(0::nat) < 2 \<and> 2 < length [[], [], [\<lparr>freq = 440, amp = 1\<rparr>], []] \<and>
   track_frames [[], [], [\<lparr>freq = 440, amp = 1\<rparr>]] =
     ([], [\<lparr>birth = 1, peaks = [\<lparr>freq = 440, amp = 0\<rparr>, \<lparr>freq = 440, amp = 1\<rparr>]\<rparr>])"
proof -
  have f: "(0::nat) < 2" by simp
  have l: "2 < length [[], [], [\<lparr>freq = 440, amp = 1\<rparr>], []]" by simp
  have t2: "take 2 xs = (case xs of [] \<Rightarrow> [] | x # ys \<Rightarrow> x # take 1 ys)" for xs :: "'a list"
    by (cases xs) (simp_all add: numeral_2_eq_2)
  have t3: "take (Suc 2) xs = (case xs of [] \<Rightarrow> [] | x # ys \<Rightarrow> x # take 2 ys)" for xs :: "'a list"
    by (cases xs) simp_all
  have before: "track_frames [[], []] = ([], [])"
    by (simp add: track_frames_def process_frame_def match_tracks_def)
  show ?thesis
    using unmatched_peaks_start_tracks[OF f l]
    by (simp add: t2 t3 before match_tracks_def numeral_2_eq_2)
qed

text \<open>
  The only peak of the input is in frame 1 and no track is active when it is
  reached; the track it starts has \<open>birth = 0\<close>.
\<close>

theorem birth_is_frame_index_counterexample:
  "trackPartials [[], [\<lparr>freq = 440, amp = 1\<rparr>]] None =
     [\<lparr>birth = 0, peaks = [\<lparr>freq = 440, amp = 0\<rparr>, \<lparr>freq = 440, amp = 1\<rparr>]\<rparr>]"
  by (simp add: trackPartials_def track_frames_def process_frame_def match_tracks_def)

lemma numFrames_of_Nil: "numFrames_of [] = NegInfinity"
  by (simp add: numFrames_of_def lodash_max_def)

text \<open>
  Claim C5, as amended.  \<open>trackPartials\<close> of an empty frame sequence is the
  empty track list.  \<open>synthesize\<close> of the empty track list computes the
  frame count \<open>-Infinity\<close>; for a positive \<open>frameLen\<close> the buffer size is
  \<open>-Infinity\<close> and the allocation of the buffer throws \<open>RangeError\<close>, and
  only for \<open>frameLen = 0\<close> (buffer size \<open>NaN\<close>) the empty buffer is
  returned.
\<close>

theorem empty_input:
  "trackPartials [] maxPeaks = [] \<and>
   synthesize (trackPartials [] maxPeaks) frameLen samplingRate =
     (if frameLen = 0 then Inr [] else Inl RangeError)"
proof -
  have t: "trackPartials [] maxPeaks = []"
    by (simp add: trackPartials_def track_frames_def)
  have "rendered_buffer [] frameLen samplingRate = (if frameLen = 0 then Inr [] else Inl RangeError)"
    by (simp add: rendered_buffer_def numFrames_of_Nil js_inf_def render_def)
  then have "synthesize [] frameLen samplingRate = (if frameLen = 0 then Inr [] else Inl RangeError)"
    by (simp add: synthesize_def normalize_buffer_def)
  with t show ?thesis by simp
qed

theorem empty_input_witness:
  "trackPartials [] None = [] \<and> synthesize (trackPartials [] None) 0 44100 = Inr []"
  using empty_input[of None 0 44100] by auto

theorem empty_input_raises_counterexample:
  "synthesize (trackPartials [] None) 512 44100 = Inl RangeError"
  by (simp add: trackPartials_def track_frames_def synthesize_def rendered_buffer_def
      numFrames_of_Nil js_inf_def)

section \<open>Verification: one step of the walk over the active tracks\<close>



















section \<open>Verification: synthesize\<close>

subsection \<open>The maximum of lodash\<close>

lemma lodash_max_step_not_NaN:
  "acc \<noteq> NaN \<Longrightarrow> foldl (\<lambda>result v. if js_gt v result then v else result) acc xs \<noteq> NaN"
proof (induction xs arbitrary: acc)
  case Nil
  then show ?case by simp
next
  case (Cons x xs)
  have "(if js_gt x acc then x else acc) \<noteq> NaN"
    using Cons.prems by (cases x) auto
  then show ?case using Cons.IH by simp
qed

lemma lodash_max_not_NaN: "lodash_max xs \<noteq> NaN"
  unfolding lodash_max_def by (rule lodash_max_step_not_NaN) simp

lemma lodash_max_step_attained:
  "foldl (\<lambda>result v. if js_gt v result then v else result) acc xs = Num r \<Longrightarrow>
   acc = Num r \<or> Num r \<in> set xs"
proof (induction xs arbitrary: acc)
  case Nil
  then show ?case by simp
next
  case (Cons x xs)
  from Cons.prems have "(if js_gt x acc then x else acc) = Num r \<or> Num r \<in> set xs"
    using Cons.IH by simp
  then show ?case by (auto split: if_splits)
qed

lemma lodash_max_attained: "lodash_max xs = Num r \<Longrightarrow> Num r \<in> set xs"
  unfolding lodash_max_def using lodash_max_step_attained[of NegInfinity xs r] by simp

lemma lodash_max_step_upper:
  "foldl (\<lambda>result v. if js_gt v result then v else result) acc xs = Num r \<Longrightarrow>
   acc \<noteq> NaN \<Longrightarrow>
   \<not> js_gt acc (Num r) \<and> (\<forall>x \<in> set xs. \<not> js_gt x (Num r))"
proof (induction xs arbitrary: acc)
  case Nil
  then show ?case by simp
next
  case (Cons x xs)
  let ?acc' = "if js_gt x acc then x else acc"
  have nn: "?acc' \<noteq> NaN" using Cons.prems(2) by (cases x) auto
  from Cons.prems(1) have "foldl (\<lambda>result v. if js_gt v result then v else result) ?acc' xs = Num r"
    by simp
  from Cons.IH[OF this nn]
  have ih: "\<not> js_gt ?acc' (Num r)" "\<forall>x \<in> set xs. \<not> js_gt x (Num r)" by simp_all
  have "\<not> js_gt acc (Num r) \<and> \<not> js_gt x (Num r)"
    using ih(1) Cons.prems(2) by (cases x; cases acc) (auto split: if_splits)
  with ih(2) show ?case by simp
qed

lemma lodash_max_upper: "lodash_max xs = Num r \<Longrightarrow> x \<in> set xs \<Longrightarrow> \<not> js_gt x (Num r)"
  unfolding lodash_max_def using lodash_max_step_upper[of NegInfinity xs r] by simp

lemma lodash_max_abs_cases:
  assumes "lodash_max (map js_abs buf) = Num r" and "x \<in> set buf"
  shows "x = NaN \<or> (\<exists>a. x = Num a \<and> \<bar>a\<bar> \<le> r)"
proof -
  have "\<not> js_gt (js_abs x) (Num r)"
    using lodash_max_upper[OF assms(1), of "js_abs x"] assms(2) by simp
  then show ?thesis by (cases x) auto
qed


subsection \<open>The normalization pass\<close>

lemma normalize_positive:
  assumes m: "lodash_max (map js_abs buf) = Num r" and r: "0 < r"
  shows "(\<exists>j < length buf. js_abs (js_div (buf ! j) (Num r)) = Num 1) \<and>
         (\<forall>j < length buf. \<forall>y. js_div (buf ! j) (Num r) = Num y \<longrightarrow> \<bar>y\<bar> \<le> 1)"
proof
  have "Num r \<in> set (map js_abs buf)" using lodash_max_attained[OF m] .
  then obtain j where j: "j < length buf" "js_abs (buf ! j) = Num r"
    by (auto simp: in_set_conv_nth)
  then obtain a where a: "buf ! j = Num a" "\<bar>a\<bar> = r" by (cases "buf ! j") auto
  have "js_abs (js_div (buf ! j) (Num r)) = Num 1" using a r by auto
  with j show "\<exists>j < length buf. js_abs (js_div (buf ! j) (Num r)) = Num 1" by blast
next
  show "\<forall>j < length buf. \<forall>y. js_div (buf ! j) (Num r) = Num y \<longrightarrow> \<bar>y\<bar> \<le> 1"
  proof (intro allI impI)
    fix j y assume j: "j < length buf" and y: "js_div (buf ! j) (Num r) = Num y"
    from lodash_max_abs_cases[OF m, of "buf ! j"] j
    consider "buf ! j = NaN" | a where "buf ! j = Num a" "\<bar>a\<bar> \<le> r" by auto
    then show "\<bar>y\<bar> \<le> 1"
    proof cases
      case 1
      with y show ?thesis by simp
    next
      case 2
      with y r have "y = a / r" by simp
      with 2 r show ?thesis by simp
    qed
  qed
qed

lemma normalize_zero:
  assumes m: "lodash_max (map js_abs buf) = Num 0"
  shows "buf \<noteq> [] \<and> (\<forall>j < length buf. js_div (buf ! j) (Num 0) = NaN)"
proof
  show "buf \<noteq> []" using m by (auto simp: lodash_max_def)
  show "\<forall>j < length buf. js_div (buf ! j) (Num 0) = NaN"
  proof (intro allI impI)
    fix j assume "j < length buf"
    with lodash_max_abs_cases[OF m, of "buf ! j"]
    have "buf ! j = NaN \<or> buf ! j = Num 0" by auto
    then show "js_div (buf ! j) (Num 0) = NaN" by auto
  qed
qed

lemma lodash_max_zeros: "n \<noteq> 0 \<Longrightarrow> lodash_max (map js_abs (replicate n (Num 0))) = Num 0"
proof -
  have "foldl (\<lambda>result v. if js_gt v result then v else result) (Num 0) (replicate k (Num 0)) = Num 0" for k
    by (induction k) simp_all
  moreover assume "n \<noteq> 0"
  then obtain k where "n = Suc k" by (cases n) simp_all
  ultimately show ?thesis by (simp add: lodash_max_def)
qed

text \<open>
  Claim C4, as amended.  The final pass divides every sample of the rendered
  buffer by the maximum magnitude \<open>maxAmp\<close> of the buffer.  When
  \<open>maxAmp\<close> is positive the output holds a sample of magnitude exactly 1
  and none of a greater magnitude.  The division is not guarded: when
  \<open>maxAmp\<close> is zero the buffer is not empty and every sample of the output
  is \<open>NaN\<close>; in particular an all-zero buffer is returned as all
  \<open>NaN\<close>.
\<close>

theorem synthesize_normalization:
  assumes "rendered_buffer tracks frameLen samplingRate = Inr buf"
  shows "(let maxAmp = lodash_max (map js_abs buf)
          in synthesize tracks frameLen samplingRate = Inr (map (\<lambda>x. js_div x maxAmp) buf) \<and>
             (\<forall>r. maxAmp = Num r \<and> 0 < r \<longrightarrow>
                (\<exists>j < length buf. js_abs (js_div (buf ! j) maxAmp) = Num 1) \<and>
                (\<forall>j < length buf. \<forall>y. js_div (buf ! j) maxAmp = Num y \<longrightarrow> \<bar>y\<bar> \<le> 1)) \<and>
             (maxAmp = Num 0 \<longrightarrow>
                buf \<noteq> [] \<and> (\<forall>j < length buf. js_div (buf ! j) maxAmp = NaN)) \<and>
             (buf \<noteq> [] \<and> (\<forall>x \<in> set buf. x = Num 0) \<longrightarrow>
                synthesize tracks frameLen samplingRate = Inr (replicate (length buf) NaN)))"
proof -
  have syn: "synthesize tracks frameLen samplingRate =
      Inr (map (\<lambda>x. js_div x (lodash_max (map js_abs buf))) buf)"
    using assms by (simp add: synthesize_def normalize_buffer_def)
  have zeros: "synthesize tracks frameLen samplingRate = Inr (replicate (length buf) NaN)"
    if "buf \<noteq> []" "\<forall>x \<in> set buf. x = Num 0"
  proof -
    from that(2) have b: "buf = replicate (length buf) (Num 0)"
      by (simp add: replicate_length_same)
    have "lodash_max (map js_abs buf) = Num 0"
      using lodash_max_zeros[of "length buf"] that(1) b by simp
    then have "map (\<lambda>x. js_div x (lodash_max (map js_abs buf))) buf =
        map (\<lambda>x. js_div x (Num 0)) (replicate (length buf) (Num 0))"
      using b by simp
    then show ?thesis using syn by simp
  qed
  show ?thesis
    unfolding Let_def
    using syn zeros normalize_positive[of buf] normalize_zero[of buf]
    by (intro conjI allI impI) auto
qed


subsection \<open>What a track writes\<close>

lemma segment_loop_frame:
  "length (snd (segment_loop ff pf sf sa e i a t buf)) = length buf \<and>
   (\<forall>j. j < i \<or> e \<le> j \<longrightarrow> snd (segment_loop ff pf sf sa e i a t buf) ! j = buf ! j) \<and>
   (i \<le> e \<longrightarrow> fst (segment_loop ff pf sf sa e i a t buf) = e)"
proof (induction ff pf sf sa e i a t buf rule: segment_loop.induct)
  case (1 ff pf sf sa e i a t buf)
  show ?case
  proof (cases "i < e")
    case False
    have stop: "segment_loop ff pf sf sa e i a t buf = (i, buf)"
      using False by (subst segment_loop.simps) simp
    show ?thesis unfolding stop using False by simp
  next
    case True
    define buf' where "buf' = buf[i := js_plus (buf ! i)
             (js_times (Num (2.0 * a))
                (js_sin (js_times (js_times ff (Num (real t)))
                           (Num (pf + sf * 0.5 * real t)))))]"
    define res where "res = segment_loop ff pf sf sa e (i + 1) (a + sa) (t + 1) buf'"
    have unroll: "segment_loop ff pf sf sa e i a t buf = res"
      using True unfolding res_def buf'_def by (subst segment_loop.simps) simp
    have ih: "length (snd res) = length buf'"
      "\<And>j. j < i + 1 \<or> e \<le> j \<Longrightarrow> snd res ! j = buf' ! j"
      "i + 1 \<le> e \<Longrightarrow> fst res = e"
      using "1.IH"[OF True] unfolding res_def buf'_def by blast+
    have len: "length buf' = length buf" by (simp add: buf'_def)
    have same: "buf' ! j = buf ! j" if "j \<noteq> i" for j using that by (simp add: buf'_def)
    have g1: "length (snd res) = length buf" using ih(1) len by simp
    have g2: "snd res ! j = buf ! j" if "j < i \<or> e \<le> j" for j
    proof -
      from that True have "j < i + 1 \<or> e \<le> j" "j \<noteq> i" by auto
      then show ?thesis using ih(2)[of j] same[of j] by simp
    qed
    have g3: "fst res = e" using ih(3) True by simp
    show ?thesis unfolding unroll using g1 g2 g3 by blast
  qed
qed

lemma render_peaks_frame:
  "length (snd (render_peaks fl ff ps (i, buf))) = length buf \<and>
   (\<forall>j. j < i \<or> i + (length ps - 1) * fl \<le> j \<longrightarrow>
        snd (render_peaks fl ff ps (i, buf)) ! j = buf ! j)"
proof (induction fl ff ps "(i, buf)" arbitrary: i buf rule: render_peaks.induct)
  case (1 fl ff p q ps i buf)
  define seg where "seg = segment_loop ff (freq p) ((freq q - freq p) / real fl)
      ((amp q - amp p) / real fl) (i + fl) i (amp p) 0 buf"
  define res where "res = render_peaks fl ff (q # ps) (fst seg, snd seg)"
  have seg_all: "length (snd seg) = length buf \<and>
      (\<forall>j. j < i \<or> i + fl \<le> j \<longrightarrow> snd seg ! j = buf ! j) \<and>
      (i \<le> i + fl \<longrightarrow> fst seg = i + fl)"
    unfolding seg_def by (rule segment_loop_frame)
  have seg: "length (snd seg) = length buf"
    "\<And>j. j < i \<or> i + fl \<le> j \<Longrightarrow> snd seg ! j = buf ! j"
    "fst seg = i + fl"
    using seg_all by auto
  have unroll: "render_peaks fl ff (p # q # ps) (i, buf) = res"
    by (simp add: res_def seg_def Let_def)
  have "seg = (let stepFreq = (freq q - freq p) / real fl; stepAmp = (amp q - amp p) / real fl
        in segment_loop ff (freq p) stepFreq stepAmp (i + fl) i (amp p) 0 buf)"
    by (simp add: seg_def Let_def)
  then have "(let stepFreq = (freq q - freq p) / real fl; stepAmp = (amp q - amp p) / real fl
        in segment_loop ff (freq p) stepFreq stepAmp (i + fl) i (amp p) 0 buf) = (fst seg, snd seg)"
    by simp
  from "1.hyps"[OF this]
  have ih: "length (snd res) = length (snd seg)"
    "\<And>j. j < fst seg \<or> fst seg + (length (q # ps) - 1) * fl \<le> j \<Longrightarrow> snd res ! j = snd seg ! j"
    unfolding res_def by blast+
  have g1: "length (snd res) = length buf" using ih(1) seg(1) by simp
  have g2: "snd res ! j = buf ! j" if "j < i \<or> i + (length (p # q # ps) - 1) * fl \<le> j" for j
  proof -
    from that have a: "j < fst seg \<or> fst seg + (length (q # ps) - 1) * fl \<le> j"
      unfolding seg(3) by auto
    from that have b: "j < i \<or> i + fl \<le> j" by auto
    show ?thesis using ih(2)[OF a] seg(2)[OF b] by simp
  qed
  show ?case unfolding unroll using g1 g2 by blast
qed simp_all

lemma render_track_frame:
  "length (render_track fl ff t buf) = length buf \<and>
   ((birth t + length (peaks t)) * fl \<le> j + fl \<longrightarrow> render_track fl ff t buf ! j = buf ! j)"
proof (cases "peaks t = []")
  case True
  then show ?thesis by (simp add: render_track_def)
next
  case False
  then have e: "birth t * fl + (length (peaks t) - 1) * fl + fl = (birth t + length (peaks t)) * fl"
    by (cases "peaks t") (simp_all add: algebra_simps)
  have r: "length (snd (render_peaks fl ff (peaks t) (birth t * fl, buf))) = length buf"
    "\<And>j. birth t * fl + (length (peaks t) - 1) * fl \<le> j \<Longrightarrow>
        snd (render_peaks fl ff (peaks t) (birth t * fl, buf)) ! j = buf ! j"
    using render_peaks_frame[of fl ff "peaks t" "birth t * fl" buf] by blast+
  have "render_track fl ff t buf ! j = buf ! j" if "(birth t + length (peaks t)) * fl \<le> j + fl"
  proof -
    from that e have "birth t * fl + (length (peaks t) - 1) * fl \<le> j" by linarith
    from r(2)[OF this] show ?thesis by (simp add: render_track_def)
  qed
  then show ?thesis using r(1) by (simp add: render_track_def)
qed

lemma fold_render_track_frame:
  "length (fold (render_track fl ff) ts buf) = length buf \<and>
   ((\<forall>t \<in> set ts. (birth t + length (peaks t)) * fl \<le> j + fl) \<longrightarrow>
      fold (render_track fl ff) ts buf ! j = buf ! j)"
proof (induction ts arbitrary: buf)
  case Nil
  show ?case by simp
next
  case (Cons t ts)
  show ?case
    using Cons.IH[of "render_track fl ff t buf"] render_track_frame[of fl ff t buf j]
    by auto
qed


subsection \<open>The size of the buffer\<close>

lemma lodash_max_step_nats:
  "foldl (\<lambda>result v. if js_gt v result then v else result) (Num (real a))
     (map (\<lambda>t. Num (real (f t))) ts) = Num (real (fold max (map f ts) a))"
proof (induction ts arbitrary: a)
  case Nil
  show ?case by simp
next
  case (Cons t ts)
  have "(if js_gt (Num (real (f t))) (Num (real a)) then Num (real (f t)) else Num (real a)) =
        Num (real (max (f t) a))"
    by (simp add: max_def)
  then show ?case using Cons.IH[of "max (f t) a"] by simp
qed

lemma numFrames_of_Max:
  assumes "tracks \<noteq> []"
  shows "numFrames_of tracks =
           Num (real (Max ((\<lambda>t. birth t + length (peaks t)) ` set tracks)))"
proof -
  from assms obtain t ts where ts: "tracks = t # ts" by (cases tracks) simp_all
  have "numFrames_of (t # ts) =
      Num (real (fold max (map (\<lambda>t. birth t + length (peaks t)) ts) (birth t + length (peaks t))))"
    using lodash_max_step_nats[of "birth t + length (peaks t)" "\<lambda>t. birth t + length (peaks t)" ts]
    by (simp add: numFrames_of_def lodash_max_def)
  also have "fold max (map (\<lambda>t. birth t + length (peaks t)) ts) (birth t + length (peaks t)) =
      Max (set ((birth t + length (peaks t)) # map (\<lambda>t. birth t + length (peaks t)) ts))"
    by (rule Max.set_eq_fold[symmetric])
  finally show ?thesis by (simp add: ts)
qed

lemma new_Float64Array_nat:
  "new_Float64Array (js_times (Num (real N)) (Num (real fl))) = Inr zero \<Longrightarrow>
   zero = replicate (N * fl) (Num 0)"
proof -
  have "nat \<lfloor>real N * real fl\<rfloor> = N * fl"
    by (simp add: of_nat_mult[symmetric] del: of_nat_mult)
  moreover assume "new_Float64Array (js_times (Num (real N)) (Num (real fl))) = Inr zero"
  ultimately show ?thesis by (simp split: if_splits)
qed

lemma js_div_zero: "m \<noteq> Num 0 \<Longrightarrow> m \<noteq> NaN \<Longrightarrow> js_div (Num 0) m = Num 0"
  by (cases m) simp_all

text \<open>
  Claim C10.  For a non-empty track list whose rendered buffer has a maximum
  magnitude other than zero, \<open>synthesize\<close> returns a buffer of
  \<open>frameLen * max (birth + len(peaks))\<close> samples whose last \<open>frameLen\<close>
  samples are all exactly 0: a track with \<open>n\<close> peaks writes \<open>n - 1\<close>
  segments, which end before the last frame of the buffer.
\<close>

theorem synthesize_last_frame_silent:
  assumes "tracks \<noteq> []"
    and "rendered_buffer tracks frameLen samplingRate = Inr buf"
    and "lodash_max (map js_abs buf) \<noteq> Num 0"
  shows "\<exists>out. synthesize tracks frameLen samplingRate = Inr out \<and>
           length out = frameLen * Max ((\<lambda>t. birth t + length (peaks t)) ` set tracks) \<and>
           (\<forall>j. length out - frameLen \<le> j \<and> j < length out \<longrightarrow> out ! j = Num 0)"
proof -
  define N where "N = Max ((\<lambda>t. birth t + length (peaks t)) ` set tracks)"
  define ff where "ff = js_div (Num (2.0 * pi)) (Num samplingRate)"
  define m where "m = lodash_max (map js_abs buf)"
  have nf: "numFrames_of tracks = Num (real N)"
    using numFrames_of_Max[OF assms(1)] by (simp add: N_def)
  from assms(2) obtain zero where
    alloc: "new_Float64Array (js_times (Num (real N)) (Num (real frameLen))) = Inr zero" and
    buf: "buf = render tracks frameLen samplingRate zero"
    by (auto simp: rendered_buffer_def nf Let_def split: sum.splits)
  have zero: "zero = replicate (N * frameLen) (Num 0)"
    using new_Float64Array_nat[OF alloc] .
  have buf': "buf = fold (render_track frameLen ff) tracks zero"
    by (simp add: buf render_def ff_def)
  have len: "length buf = N * frameLen"
    using fold_render_track_frame[of frameLen ff tracks zero] by (simp add: buf' zero)
  have tail: "buf ! j = Num 0" if j: "N * frameLen - frameLen \<le> j" "j < N * frameLen" for j
  proof -
    have "\<forall>t \<in> set tracks. (birth t + length (peaks t)) * frameLen \<le> j + frameLen"
    proof
      fix t assume "t \<in> set tracks"
      then have "birth t + length (peaks t) \<le> N" by (simp add: N_def)
      then have "(birth t + length (peaks t)) * frameLen \<le> N * frameLen" by simp
      with j show "(birth t + length (peaks t)) * frameLen \<le> j + frameLen" by linarith
    qed
    then have "buf ! j = zero ! j"
      using fold_render_track_frame[of frameLen ff tracks zero j] by (simp add: buf')
    with j show ?thesis by (simp add: zero)
  qed
  have syn: "synthesize tracks frameLen samplingRate = Inr (map (\<lambda>x. js_div x m) buf)"
    using assms(2) by (simp add: synthesize_def normalize_buffer_def m_def)
  have m: "m \<noteq> Num 0" "m \<noteq> NaN"
    using assms(3) lodash_max_not_NaN[of "map js_abs buf"] by (simp_all add: m_def)
  have out: "map (\<lambda>x. js_div x m) buf ! j = Num 0"
    if "length (map (\<lambda>x. js_div x m) buf) - frameLen \<le> j" "j < length (map (\<lambda>x. js_div x m) buf)" for j
  proof -
    from that have "N * frameLen - frameLen \<le> j" "j < N * frameLen" by (simp_all add: len)
    then show ?thesis using tail[of j] js_div_zero[OF m] by (simp add: len)
  qed
  have "length (map (\<lambda>x. js_div x m) buf) = frameLen * N" by (simp add: len)
  with syn out show ?thesis unfolding N_def by blast
qed


lemmas render_eval =
  rendered_buffer_def numFrames_of_def lodash_max_def render_def render_track_def
  segment_loop.simps Let_def

lemma rendered_example:
  "rendered_buffer [\<lparr>birth = 0, peaks = [\<lparr>freq = 1, amp = 1\<rparr>, \<lparr>freq = 1, amp = 1\<rparr>]\<rparr>] 2 4 =
     Inr [Num 0, Num 2, Num 0, Num 0]"
  by (simp add: render_eval eval_nat_numeral)

lemma rendered_example_late:
  "rendered_buffer [\<lparr>birth = 1, peaks = [\<lparr>freq = 1, amp = 3\<rparr>, \<lparr>freq = 1, amp = 3\<rparr>]\<rparr>] 2 4 =
     Inr [Num 0, Num 0, Num 0, Num 6, Num 0, Num 0]"
  by (simp add: render_eval eval_nat_numeral)

lemma rendered_example_silent:
  "rendered_buffer [\<lparr>birth = 0, peaks = [\<lparr>freq = 440, amp = 0\<rparr>, \<lparr>freq = 440, amp = 0\<rparr>]\<rparr>] 1 44100 =
     Inr [Num 0, Num 0]"
  by (simp add: render_eval eval_nat_numeral)

theorem synthesize_normalization_witness:
  "rendered_buffer [\<lparr>birth = 0, peaks = [\<lparr>freq = 1, amp = 1\<rparr>, \<lparr>freq = 1, amp = 1\<rparr>]\<rparr>] 2 4 =
     Inr [Num 0, Num 2, Num 0, Num 0] \<and>
   synthesize [\<lparr>birth = 0, peaks = [\<lparr>freq = 1, amp = 1\<rparr>, \<lparr>freq = 1, amp = 1\<rparr>]\<rparr>] 2 4 =
     Inr [Num 0, Num 1, Num 0, Num 0]"
  using synthesize_normalization[OF rendered_example] rendered_example
  by (simp add: Let_def lodash_max_def)

text \<open>
  A track of two zero-amplitude peaks renders the all-zero buffer of two
  samples; the buffer returned holds \<open>NaN\<close> twice.
\<close>

theorem silent_buffer_counterexample:
  "rendered_buffer [\<lparr>birth = 0, peaks = [\<lparr>freq = 440, amp = 0\<rparr>, \<lparr>freq = 440, amp = 0\<rparr>]\<rparr>] 1 44100 =
     Inr [Num 0, Num 0] \<and>
   synthesize [\<lparr>birth = 0, peaks = [\<lparr>freq = 440, amp = 0\<rparr>, \<lparr>freq = 440, amp = 0\<rparr>]\<rparr>] 1 44100 =
     Inr [NaN, NaN]"
  using rendered_example_silent by (simp add: synthesize_def normalize_buffer_def lodash_max_def)

theorem synthesize_last_frame_silent_witness:
  "[\<lparr>birth = 1, peaks = [\<lparr>freq = 1, amp = 3\<rparr>, \<lparr>freq = 1, amp = 3\<rparr>]\<rparr>] \<noteq> [] \<and>
   rendered_buffer [\<lparr>birth = 1, peaks = [\<lparr>freq = 1, amp = 3\<rparr>, \<lparr>freq = 1, amp = 3\<rparr>]\<rparr>] 2 4 =
     Inr [Num 0, Num 0, Num 0, Num 6, Num 0, Num 0] \<and>
   lodash_max (map js_abs [Num 0, Num 0, Num 0, Num 6, Num 0, Num 0]) \<noteq> Num 0 \<and>
   (\<exists>out. synthesize [\<lparr>birth = 1, peaks = [\<lparr>freq = 1, amp = 3\<rparr>, \<lparr>freq = 1, amp = 3\<rparr>]\<rparr>] 2 4 = Inr out \<and>
      length out = 6 \<and> out ! 4 = Num 0 \<and> out ! 5 = Num 0)"
proof -
  have ne: "[\<lparr>birth = 1, peaks = [\<lparr>freq = 1, amp = 3\<rparr>, \<lparr>freq = 1, amp = 3\<rparr>]\<rparr>] \<noteq> []" by simp
  have mx: "lodash_max (map js_abs [Num 0, Num 0, Num 0, Num 6, Num 0, Num 0]) \<noteq> Num 0"
    by (simp add: lodash_max_def)
  from synthesize_last_frame_silent[OF ne rendered_example_late mx]
  obtain out where out:
    "synthesize [\<lparr>birth = 1, peaks = [\<lparr>freq = 1, amp = 3\<rparr>, \<lparr>freq = 1, amp = 3\<rparr>]\<rparr>] 2 4 = Inr out"
    "length out = 6"
    "\<forall>j. length out - 2 \<le> j \<and> j < length out \<longrightarrow> out ! j = Num 0"
    by auto
  from out(2,3) have "out ! 4 = Num 0" "out ! 5 = Num 0" by simp_all
  with ne mx out(1,2) rendered_example_late show ?thesis by blast
qed

section \<open>Verification: every peak is consumed once\<close>


lemma all_slots_append [simp]: "all_slots (xs @ ys) = all_slots xs + all_slots ys"
  by (simp add: all_slots_def)

lemma all_slots_Nil [simp]: "all_slots [] = {#}"
  by (simp add: all_slots_def)

lemma all_slots_single [simp]: "all_slots [t] = slots t"
  by (simp add: all_slots_def)

























end
